theory Spec2Isabelle
  imports Main "HOL-Library.Word"
begin

unbundle bit_operations_syntax

section \<open>Data model\<close>

text \<open>
  The cache of package \<open>biz\<close> (usecase, shards, time wheel) and the append-only file of
  package \<open>data\<close> (writer queue, compaction).  Wall-clock instants are nanoseconds since
  the Unix epoch, durations (\<open>time.Duration\<close>) are nanoseconds; both are \<open>int\<close>, the
  64-bit range is never left by the arithmetic below for real clock values.
  \<open>Time.Unix()\<close> is the whole number of seconds.
\<close>

datatype error = ErrKeyNotFound | ErrDecode | Panic

text \<open>An element of a \<open>[]interface{}\<close> command: the code paths only test for the dynamic
  types \<open>string\<close> and \<open>int64\<close>; \<open>IOther\<close> is a value of any other registered type.\<close>

datatype iface = IString string | IInt64 int | IOther

type_synonym command = "iface list"

text \<open>What one call of \<open>decoder.Decode(&command)\<close> yields on the file: a command, or an
  error other than \<open>io.EOF\<close>.  The end of the list is \<open>io.EOF\<close>.\<close>

datatype decoded = Command command | DecodeError

record CacheItem =
  Value :: string
  ExpiresAt :: int

record TimeWheel =
  slots :: "(string \<rightharpoonup> int) list"
  tick :: int
  index :: int

text \<open>\<open>cacheRepo\<close> with its \<open>AsyncAOFWriter\<close>: the records a reader decodes from the file on
  disk, and the commands waiting in the writer's channel, oldest first.\<close>

record cacheRepo =
  file' :: "decoded list"
  queue :: "command list"

record GoCacheUsecase =
  shards :: "nat \<Rightarrow> (string \<rightharpoonup> CacheItem)"
  timeWheel :: TimeWheel
  repo :: cacheRepo

definition numShards :: nat where
  "numShards = 32"

definition second :: int where
  "second = 1000000000"

definition unix :: "int \<Rightarrow> int" where
  "unix t = t div second"

text \<open>Go's integer division truncates towards zero, and \<open>%\<close> takes the sign of the
  dividend.\<close>

definition go_div :: "int \<Rightarrow> int \<Rightarrow> int" where
  "go_div a b = sgn a * sgn b * (\<bar>a\<bar> div \<bar>b\<bar>)"

definition go_mod :: "int \<Rightarrow> int \<Rightarrow> int" where
  "go_mod a b = sgn a * (\<bar>a\<bar> mod \<bar>b\<bar>)"

section \<open>Sharding\<close>

text \<open>\<open>fnv.New32a\<close>, \<open>Write\<close>, \<open>Sum32\<close> of the standard library: start from the offset
  basis; for every byte, xor it in and multiply by the 32-bit FNV prime.\<close>

definition fnv32 :: "string \<Rightarrow> 32 word" where
  "fnv32 key = fold (\<lambda>c h. (h XOR of_char c) * 16777619) key 2166136261"

definition getShard :: "string \<Rightarrow> nat" where
  "getShard key = unat (fnv32 key mod of_nat numShards)"

text \<open>The hash the specification names, written independently of the code above: FNV-1a
  with 32 bits as the FNV reference defines it, on natural numbers with the reduction
  modulo \<open>2^32\<close> written out.  The hash starts at the offset basis 2166136261; each byte
  is xor-ed into it and the result multiplied by the prime 16777619.  \<open>bytes\<close> are the
  bytes of a key (a \<open>string\<close> is its byte sequence).\<close>

definition fnv1a_step :: "nat \<Rightarrow> nat \<Rightarrow> nat" where
  "fnv1a_step h b = ((h XOR b) * 16777619) mod 2 ^ 32"

definition fnv1a_32 :: "nat list \<Rightarrow> nat" where
  "fnv1a_32 bs = foldl fnv1a_step 2166136261 bs"

definition bytes :: "string \<Rightarrow> nat list" where
  "bytes key = map of_char key"

section \<open>Persistence: writer queue\<close>

definition Write :: "cacheRepo \<Rightarrow> command \<Rightarrow> cacheRepo" where
  "Write r cmd = r\<lparr>queue := queue r @ [cmd]\<rparr>"

text \<open>\<open>Write\<close> is all that \<open>Set\<close> and \<open>Delete\<close> do for the log: the command is in the channel
  behind those handed over before.  \<open>writeLoop\<close> takes the commands off the channel in
  that order and encodes them with the one gob encoder it built on the file handle of the
  start.  What a reader later decodes from the file depends on that encoder's stream and
  on that handle, which \<open>CleanupAOF\<close> closes while it rebinds only the struct field; this
  is not modelled, and no statement below says what a queued command becomes on disk.\<close>

section \<open>Time wheel\<close>

text \<open>The wheel that stands beside the usecase, whose slots map a key to a timestamp and
  whose tick compares that timestamp with the clock.  (\<open>time_wheel.go\<close> holds a variant
  whose slots are plain key sets and whose tick calls \<open>Delete\<close> for every key of the
  slot, with no test at all.)\<close>

definition NewTimeWheel :: "nat \<Rightarrow> int \<Rightarrow> TimeWheel" where
  "NewTimeWheel n t = \<lparr>slots = replicate n Map.empty, tick = t, index = 0\<rparr>"

text \<open>\<open>Add\<close>: a zero tick or an empty slice is a division by zero, a negative remainder
  an index out of range; both are run-time panics.\<close>

definition Add :: "TimeWheel \<Rightarrow> string \<Rightarrow> int \<Rightarrow> int \<Rightarrow> error + TimeWheel" where
  "Add tw key expiration now =
     (if tick tw = 0 \<or> slots tw = [] then Inl Panic
      else
        let slotIndex = go_mod (index tw + go_div expiration (tick tw)) (int (length (slots tw)))
        in if slotIndex < 0 then Inl Panic
           else Inr (tw\<lparr>slots := (slots tw)
                  [nat slotIndex := (slots tw ! nat slotIndex)(key \<mapsto> unix (now + expiration))]\<rparr>))"

section \<open>Foreground operations\<close>

text \<open>Every operation takes the instant \<open>now\<close> at which it runs.  \<open>Inr\<close> is a normal
  return, \<open>Inl Panic\<close> a run-time panic.\<close>

definition Set :: "GoCacheUsecase \<Rightarrow> string \<Rightarrow> string \<Rightarrow> int \<Rightarrow> int \<Rightarrow> error + GoCacheUsecase" where
  "Set c key val ttl now =
     (let entry = \<lparr>Value = val, ExpiresAt = (if ttl > 0 then unix (now + ttl) else 0)\<rparr>;
          i = getShard key;
          c1 = c\<lparr>shards := (shards c)(i := (shards c i)(key \<mapsto> entry))\<rparr>
      in case Add (timeWheel c1) key ttl now of
           Inl e \<Rightarrow> Inl e
         | Inr tw \<Rightarrow>
             Inr (c1\<lparr>timeWheel := tw,
                     repo := Write (repo c1)
                       [IString ''SET'', IString key, IString val, IInt64 (ExpiresAt entry)]\<rparr>))"

definition Get :: "GoCacheUsecase \<Rightarrow> string \<Rightarrow> int \<Rightarrow> (error + string) \<times> GoCacheUsecase" where
  "Get c key now =
     (let i = getShard key
      in case shards c i key of
           None \<Rightarrow> (Inl ErrKeyNotFound, c)
         | Some entry \<Rightarrow>
             if ExpiresAt entry < unix now
             then (Inl ErrKeyNotFound, c\<lparr>shards := (shards c)(i := (shards c i)(key := None))\<rparr>)
             else (Inr (Value entry), c))"

definition Delete :: "GoCacheUsecase \<Rightarrow> string \<Rightarrow> error + GoCacheUsecase" where
  "Delete c key =
     (let i = getShard key
      in Inr (c\<lparr>shards := (shards c)(i := (shards c i)(key := None)),
                repo := Write (repo c) [IString ''DEL'', IString key]\<rparr>))"

section \<open>Wheel ticks\<close>

text \<open>The \<open>for key, expiresAt := range tw.slots[tw.index]\<close> loop of \<open>run\<close>.  Go leaves the
  order of a map iteration open: \<open>keys\<close> is the order in which this iteration visits the
  keys of the slot.  \<open>now\<close> is the second read once before the loop.\<close>

fun fire :: "int \<Rightarrow> nat \<Rightarrow> string list \<Rightarrow> GoCacheUsecase \<Rightarrow> error + GoCacheUsecase" where
  "fire now i [] c = Inr c"
| "fire now i (key # keys) c =
     (case (slots (timeWheel c) ! i) key of
        None \<Rightarrow> fire now i keys c
      | Some expiresAt \<Rightarrow>
          if now > expiresAt then
            (let tw = timeWheel c;
                 c1 = c\<lparr>timeWheel := tw\<lparr>slots := (slots tw)[i := (slots tw ! i)(key := None)]\<rparr>\<rparr>
             in case Delete c1 key of
                  Inl e \<Rightarrow> Inl e
                | Inr c2 \<Rightarrow> fire now i keys c2)
          else fire now i keys c)"

text \<open>One \<open>case <-ticker.C\<close> of \<open>run\<close>, at instant \<open>t\<close>: the body of the loop.\<close>

definition runTick :: "int \<Rightarrow> string list \<Rightarrow> GoCacheUsecase \<Rightarrow> error + GoCacheUsecase" where
  "runTick t keys c =
     (let tw = timeWheel c
      in if slots tw = [] then Inl Panic
         else
           let idx = go_mod (index tw + 1) (int (length (slots tw)));
               c1 = c\<lparr>timeWheel := tw\<lparr>index := idx\<rparr>\<rparr>
           in if idx < 0 then Inl Panic else fire (unix t) (nat idx) keys c1)"

text \<open>The loop of \<open>run\<close>: one element per tick of the ticker, with the instant of the tick
  and the iteration order of its slot; the end of the list is the stop signal.\<close>

fun run :: "(int \<times> string list) list \<Rightarrow> GoCacheUsecase \<Rightarrow> error + GoCacheUsecase" where
  "run [] c = Inr c"
| "run ((t, keys) # ticks) c =
     (case runTick t keys c of
        Inl e \<Rightarrow> Inl e
      | Inr c' \<Rightarrow> run ticks c')"

section \<open>Recovery\<close>

text \<open>The decode loop of \<open>loadFromDisk\<close>.  \<open>clk n\<close> is the instant at which the \<open>n\<close>-th
  iteration reads the clock.  A failed type assertion is a panic.\<close>

fun loadLoop :: "(nat \<Rightarrow> int) \<Rightarrow> nat \<Rightarrow> decoded list \<Rightarrow> GoCacheUsecase \<Rightarrow> error + GoCacheUsecase" where
  "loadLoop clk n [] c = Inr c"
| "loadLoop clk n (DecodeError # rest) c = Inr c"
| "loadLoop clk n (Command command # rest) c =
     (if length command = 4 \<and> command ! 0 = IString ''SET'' then
        (case command ! 1 of
           IString key \<Rightarrow>
             (case command ! 2 of
                IString val \<Rightarrow>
                  (case command ! 3 of
                     IInt64 expiresAt \<Rightarrow>
                       if expiresAt = 0 \<or> unix (clk n) < expiresAt then
                         (let i = getShard key;
                              entry = \<lparr>Value = val, ExpiresAt = expiresAt\<rparr>;
                              c1 = c\<lparr>shards := (shards c)(i := (shards c i)(key \<mapsto> entry))\<rparr>
                          in case Add (timeWheel c1) key 0 (clk n) of
                               Inl e \<Rightarrow> Inl e
                             | Inr tw \<Rightarrow> loadLoop clk (Suc n) rest (c1\<lparr>timeWheel := tw\<rparr>))
                       else loadLoop clk (Suc n) rest c
                   | _ \<Rightarrow> Inl Panic)
              | _ \<Rightarrow> Inl Panic)
         | _ \<Rightarrow> Inl Panic)
      else if length command = 2 \<and> command ! 0 = IString ''DEL'' then
        (case command ! 1 of
           IString key \<Rightarrow>
             (let i = getShard key
              in loadLoop clk (Suc n) rest (c\<lparr>shards := (shards c)(i := (shards c i)(key := None))\<rparr>))
         | _ \<Rightarrow> Inl Panic)
      else loadLoop clk (Suc n) rest c)"

definition loadFromDisk :: "(nat \<Rightarrow> int) \<Rightarrow> GoCacheUsecase \<Rightarrow> error + GoCacheUsecase" where
  "loadFromDisk clk c = loadLoop clk 0 (file' (repo c)) c"

definition NewGoCacheUsecase :: "(nat \<Rightarrow> int) \<Rightarrow> cacheRepo \<Rightarrow> error + GoCacheUsecase" where
  "NewGoCacheUsecase clk r =
     loadFromDisk clk
       \<lparr>shards = (\<lambda>i. Map.empty), timeWheel = NewTimeWheel 60 second, repo = r\<rparr>"

section \<open>Sweeper and compaction\<close>

text \<open>\<open>collectExpiredKeys\<close>: \<open>visit\<close> is the order in which the shards and their maps
  are iterated, as pairs of shard number and key.\<close>

definition collectExpiredKeys :: "int \<Rightarrow> (nat \<times> string) list \<Rightarrow> GoCacheUsecase \<Rightarrow> string list" where
  "collectExpiredKeys now visit c =
     map snd (filter (\<lambda>(i, key). case shards c i key of
                                   None \<Rightarrow> False
                                 | Some entry \<Rightarrow> ExpiresAt entry > 0 \<and> unix now > ExpiresAt entry)
                visit)"

fun cleanupMemory :: "string list \<Rightarrow> GoCacheUsecase \<Rightarrow> GoCacheUsecase" where
  "cleanupMemory [] c = c"
| "cleanupMemory (key # keys) c =
     (let i = getShard key
      in cleanupMemory keys (c\<lparr>shards := (shards c)(i := (shards c i)(key := None))\<rparr>))"

text \<open>The decode loop of \<open>CleanupAOF\<close>: \<open>out\<close> is what has been encoded into the temporary
  file so far.  A decode error other than end of file is returned to the caller.\<close>

fun copyLoop :: "string list \<Rightarrow> decoded list \<Rightarrow> command list \<Rightarrow> error + command list" where
  "copyLoop expiredKeys [] out = Inr out"
| "copyLoop expiredKeys (DecodeError # rest) out = Inl ErrDecode"
| "copyLoop expiredKeys (Command command # rest) out =
     (if length command = 4 \<and> command ! 0 = IString ''SET'' then
        (case command ! 1 of
           IString key \<Rightarrow>
             if key \<notin> set expiredKeys then copyLoop expiredKeys rest (out @ [command])
             else copyLoop expiredKeys rest out
         | _ \<Rightarrow> Inl Panic)
      else if length command = 2 \<and> command ! 0 = IString ''DEL'' then
        (case command ! 1 of
           IString key \<Rightarrow>
             if key \<notin> set expiredKeys then copyLoop expiredKeys rest (out @ [command])
             else copyLoop expiredKeys rest out
         | _ \<Rightarrow> Inl Panic)
      else copyLoop expiredKeys rest out)"

text \<open>\<open>CleanupAOF\<close>: on success the temporary file replaces the log; on an error the log
  on disk is as it was.  The error is the function's return value.\<close>

definition CleanupAOF :: "cacheRepo \<Rightarrow> string list \<Rightarrow> error option \<times> cacheRepo" where
  "CleanupAOF r expiredKeys =
     (case copyLoop expiredKeys (file' r) [] of
        Inl e \<Rightarrow> (Some e, r)
      | Inr out \<Rightarrow> (None, r\<lparr>file' := map Command out\<rparr>))"

text \<open>One pass of \<open>startExpirationChecker\<close> over the collected keys.\<close>

definition sweep :: "string list \<Rightarrow> GoCacheUsecase \<Rightarrow> GoCacheUsecase" where
  "sweep expiredKeys c =
     (if length expiredKeys > 0
      then (let c1 = cleanupMemory expiredKeys c
            in c1\<lparr>repo := snd (CleanupAOF (repo c1) expiredKeys)\<rparr>)
      else c)"

section \<open>States the program can reach\<close>

text \<open>\<open>NewCacheRepo\<close> on a log file holding \<open>f\<close>: the writer's channel starts empty.\<close>

definition NewCacheRepo :: "decoded list \<Rightarrow> cacheRepo" where
  "NewCacheRepo f = \<lparr>file' = f, queue = []\<rparr>"

text \<open>The states reached from the constructor by the foreground operations, wheel ticks,
  sweeper passes and the writer.  A step of the writer takes the oldest command off the
  channel; the file may hold anything afterwards (see above), so the set is an upper
  bound of what the program reaches.\<close>

inductive reachable :: "GoCacheUsecase \<Rightarrow> bool" where
  r_new: "NewGoCacheUsecase clk (NewCacheRepo f) = Inr c \<Longrightarrow> reachable c"
| r_set: "reachable c \<Longrightarrow> Set c key val ttl now = Inr c' \<Longrightarrow> reachable c'"
| r_get: "reachable c \<Longrightarrow> reachable (snd (Get c key now))"
| r_delete: "reachable c \<Longrightarrow> Delete c key = Inr c' \<Longrightarrow> reachable c'"
| r_run: "reachable c \<Longrightarrow> runTick t keys c = Inr c' \<Longrightarrow> reachable c'"
| r_sweep: "reachable c \<Longrightarrow> reachable (sweep expiredKeys c)"
| r_write: "reachable c \<Longrightarrow> queue (repo c) = cmd # q \<Longrightarrow>
            reachable (c\<lparr>repo := \<lparr>file' = f, queue = q\<rparr>\<rparr>)"

text \<open>The wheel as \<open>NewTimeWheel(60, time.Second, c)\<close> builds it, the index inside the
  slice.\<close>

definition wheel_ok :: "TimeWheel \<Rightarrow> bool" where
  "wheel_ok tw \<longleftrightarrow> length (slots tw) = 60 \<and> tick tw = second \<and> 0 \<le> index tw \<and> index tw < 60"

text \<open>A key is only ever stored in the shard its hash selects.\<close>

definition shard_inv :: "GoCacheUsecase \<Rightarrow> bool" where
  "shard_inv c \<longleftrightarrow> (\<forall>i key. shards c i key \<noteq> None \<longrightarrow> i = getShard key)"

definition cache_inv :: "GoCacheUsecase \<Rightarrow> bool" where
  "cache_inv c \<longleftrightarrow> wheel_ok (timeWheel c) \<and> shard_inv c"

text \<open>The cache built by the constructor on an empty log file.\<close>

definition fresh :: GoCacheUsecase where
  "fresh = \<lparr>shards = (\<lambda>i. Map.empty), timeWheel = NewTimeWheel 60 second, repo = NewCacheRepo []\<rparr>"

section \<open>Records of the log\<close>

text \<open>The key of a record, as the compaction loop reads it: the second element of a
  four-element \<open>SET\<close> tuple or of a two-element \<open>DEL\<close> tuple.\<close>

definition recordKey :: "command \<Rightarrow> string option" where
  "recordKey command =
     (if (length command = 4 \<and> command ! 0 = IString ''SET'')
         \<or> (length command = 2 \<and> command ! 0 = IString ''DEL'')
      then (case command ! 1 of IString key \<Rightarrow> Some key | _ \<Rightarrow> None)
      else None)"

text \<open>The records of one key, in log order, and the last of them.\<close>

definition recordsFor :: "string \<Rightarrow> command list \<Rightarrow> command list" where
  "recordsFor key cs = filter (\<lambda>cmd. recordKey cmd = Some key) cs"

definition lastRecord :: "string \<Rightarrow> command list \<Rightarrow> command option" where
  "lastRecord key cs = (case recordsFor key cs of [] \<Rightarrow> None | x # xs \<Rightarrow> Some (last (x # xs)))"

text \<open>What a reader decodes from a file, record after record, up to the end or the first
  decode error.\<close>

fun decodeAll :: "decoded list \<Rightarrow> command list" where
  "decodeAll [] = []"
| "decodeAll (DecodeError # rest) = []"
| "decodeAll (Command command # rest) = command # decodeAll rest"

text \<open>The condition under which the compaction loop copies a record.\<close>

definition kept :: "string list \<Rightarrow> command \<Rightarrow> bool" where
  "kept expiredKeys command =
     (case recordKey command of None \<Rightarrow> False | Some key \<Rightarrow> key \<notin> set expiredKeys)"

text \<open>The two tuples \<open>Set\<close> and \<open>Delete\<close> hand to the writer.\<close>

definition setRecord :: "string \<Rightarrow> string \<Rightarrow> int \<Rightarrow> command" where
  "setRecord key val expiresAt = [IString ''SET'', IString key, IString val, IInt64 expiresAt]"

definition delRecord :: "string \<Rightarrow> command" where
  "delRecord key = [IString ''DEL'', IString key]"

text \<open>A small log used to run the compaction: it holds a record that is neither \<open>SET\<close>
  nor \<open>DEL\<close>.\<close>

definition sampleLog :: "decoded list" where
  "sampleLog = [Command (setRecord ''a'' ''1'' 0), Command (setRecord ''b'' ''2'' 101),
     Command (delRecord ''a''), Command [IString ''PING''], Command (setRecord ''a'' ''3'' 0)]"

section \<open>Recovery as the specification words it\<close>

text \<open>The two record types of the log as a tagged variant, and their tuples on disk.\<close>

datatype logRecord = SetRec string string int | DelRec string

fun encodeRecord :: "logRecord \<Rightarrow> command" where
  "encodeRecord (SetRec key val expiresAt) = setRecord key val expiresAt"
| "encodeRecord (DelRec key) = delRecord key"

text \<open>The specification's rule for one record at Unix second \<open>now\<close>: a \<open>SET\<close> is inserted
  into the shard of its key when \<open>exp = 0\<close> or \<open>exp > now\<close>, a \<open>DEL\<close> removes the key from
  its shard.\<close>

fun applyRecord :: "int \<Rightarrow> (nat \<Rightarrow> (string \<rightharpoonup> CacheItem)) \<Rightarrow> logRecord \<Rightarrow> (nat \<Rightarrow> (string \<rightharpoonup> CacheItem))" where
  "applyRecord now sh (SetRec key val expiresAt) =
     (if expiresAt = 0 \<or> expiresAt > now
      then sh(getShard key := (sh (getShard key))(key \<mapsto> \<lparr>Value = val, ExpiresAt = expiresAt\<rparr>))
      else sh)"
| "applyRecord now sh (DelRec key) = sh(getShard key := (sh (getShard key))(key := None))"

text \<open>The records applied in order, the \<open>n\<close>-th at the second the clock shows then.\<close>

fun replay :: "(nat \<Rightarrow> int) \<Rightarrow> nat \<Rightarrow> logRecord list \<Rightarrow> (nat \<Rightarrow> (string \<rightharpoonup> CacheItem)) \<Rightarrow> (nat \<Rightarrow> (string \<rightharpoonup> CacheItem))" where
  "replay clk n [] sh = sh"
| "replay clk n (r # rs) sh = replay clk (Suc n) rs (applyRecord (unix (clk n)) sh r)"

text \<open>A clock that stays at one instant.\<close>

definition constClock :: "int \<Rightarrow> nat \<Rightarrow> int" where
  "constClock t n = t"

text \<open>A clock that is at \<open>t\<close> for the first record and \<open>dt\<close> later for each further one.\<close>

definition stepClock :: "int \<Rightarrow> int \<Rightarrow> nat \<Rightarrow> int" where
  "stepClock t dt n = t + int n * dt"

text \<open>\<open>n\<close> ticks one second apart, the first one second after \<open>t\<close>, each visiting \<open>keys\<close>.\<close>

fun ticksFrom :: "int \<Rightarrow> nat \<Rightarrow> string list \<Rightarrow> (int \<times> string list) list" where
  "ticksFrom t 0 keys = []"
| "ticksFrom t (Suc n) keys = (t + second, keys) # ticksFrom (t + second) n keys"

section \<open>Invariants of the reachable states\<close>

lemma go_mod_nonneg: "0 \<le> a \<Longrightarrow> 0 < b \<Longrightarrow> go_mod a b = a mod b"
  by (simp add: go_mod_def sgn_if)

lemma go_div_nonneg: "0 \<le> a \<Longrightarrow> 0 < b \<Longrightarrow> go_div a b = a div b"
  by (simp add: go_div_def sgn_if)

lemma Add_ok:
  assumes "wheel_ok tw" "0 \<le> d"
  shows "Add tw key d now =
    Inr (tw\<lparr>slots := (slots tw)[nat ((index tw + d div second) mod 60) :=
         (slots tw ! nat ((index tw + d div second) mod 60))(key \<mapsto> unix (now + d))]\<rparr>)"
proof -
  have s: "(0::int) < second" by (simp add: second_def)
  have q: "go_div d second = d div second" using assms(2) s by (rule go_div_nonneg)
  have "0 \<le> d div second" using assms(2) s by (simp add: pos_imp_zdiv_nonneg_iff)
  then have nn: "0 \<le> index tw + d div second" using assms(1) by (simp add: wheel_ok_def)
  have m: "go_mod (index tw + d div second) 60 = (index tw + d div second) mod 60"
    using nn by (simp add: go_mod_nonneg)
  have ne: "slots tw \<noteq> []" using assms(1) by (auto simp: wheel_ok_def)
  show ?thesis using assms(1) ne s q m
    by (simp add: Add_def wheel_ok_def Let_def)
qed

lemma Add_wheel_ok: "wheel_ok tw \<Longrightarrow> Add tw key d now = Inr tw' \<Longrightarrow> wheel_ok tw'"
  by (auto simp: Add_def wheel_ok_def Let_def split: if_splits)

lemma Set_inv: "cache_inv c \<Longrightarrow> Set c key val ttl now = Inr c' \<Longrightarrow> cache_inv c'"
  by (auto simp: Set_def cache_inv_def shard_inv_def Let_def Write_def split: sum.splits if_splits dest: Add_wheel_ok)

lemma Get_inv: "cache_inv c \<Longrightarrow> cache_inv (snd (Get c key now))"
  by (auto simp: Get_def cache_inv_def shard_inv_def Let_def split: option.splits if_splits)

lemma Delete_inv: "cache_inv c \<Longrightarrow> Delete c key = Inr c' \<Longrightarrow> cache_inv c'"
  by (auto simp: Delete_def cache_inv_def shard_inv_def Let_def split: if_splits)

lemma fire_inv: "cache_inv c \<Longrightarrow> fire now i keys c = Inr c' \<Longrightarrow> cache_inv c'"
proof (induction keys arbitrary: c)
  case Nil
  then show ?case by simp
next
  case (Cons key keys)
  show ?case
  proof (cases "(slots (timeWheel c) ! i) key")
    case None
    with Cons show ?thesis by simp
  next
    case (Some e)
    show ?thesis
    proof (cases "now > e")
      case False
      with Some Cons show ?thesis by simp
    next
      case True
      define c1 where "c1 = c\<lparr>timeWheel := (timeWheel c)\<lparr>slots := (slots (timeWheel c))[i := (slots (timeWheel c) ! i)(key := None)]\<rparr>\<rparr>"
      have i1: "cache_inv c1" using Cons.prems(1) by (simp add: c1_def cache_inv_def wheel_ok_def shard_inv_def)
      obtain c2 where d: "Delete c1 key = Inr c2" by (simp add: Delete_def Let_def)
      have i2: "cache_inv c2" using i1 d by (rule Delete_inv)
      have "fire now i keys c2 = Inr c'"
        using Cons.prems(2) Some True d by (simp add: Let_def c1_def)
      with i2 show ?thesis by (rule Cons.IH)
    qed
  qed
qed

lemma runTick_inv: "cache_inv c \<Longrightarrow> runTick t keys c = Inr c' \<Longrightarrow> cache_inv c'"
proof -
  assume a: "cache_inv c" and r: "runTick t keys c = Inr c'"
  let ?idx = "go_mod (index (timeWheel c) + 1) (int (length (slots (timeWheel c))))"
  let ?c1 = "c\<lparr>timeWheel := (timeWheel c)\<lparr>index := ?idx\<rparr>\<rparr>"
  have w: "wheel_ok (timeWheel c)" using a by (simp add: cache_inv_def)
  then have "?idx = (index (timeWheel c) + 1) mod 60"
    by (simp add: wheel_ok_def go_mod_nonneg)
  then have "0 \<le> ?idx \<and> ?idx < 60" by simp
  then have i1: "cache_inv ?c1" using a by (simp add: cache_inv_def wheel_ok_def shard_inv_def)
  have "fire (unix t) (nat ?idx) keys ?c1 = Inr c'"
    using r by (simp add: runTick_def Let_def split: if_splits)
  with i1 show "cache_inv c'" by (rule fire_inv)
qed

lemma cleanupMemory_inv: "cache_inv c \<Longrightarrow> cache_inv (cleanupMemory keys c)"
proof (induction keys arbitrary: c)
  case Nil
  then show ?case by simp
next
  case (Cons key keys)
  have "cache_inv (c\<lparr>shards := (shards c)(getShard key := (shards c (getShard key))(key := None))\<rparr>)"
    using Cons.prems by (simp add: cache_inv_def shard_inv_def)
  then show ?case using Cons.IH by (simp add: Let_def)
qed

lemma sweep_inv: "cache_inv c \<Longrightarrow> cache_inv (sweep keys c)"
  using cleanupMemory_inv [of c keys] by (simp add: sweep_def Let_def cache_inv_def shard_inv_def)

lemma inv_put:
  "cache_inv c \<Longrightarrow> Add (timeWheel c) key d now = Inr tw \<Longrightarrow>
   cache_inv (c\<lparr>shards := (shards c)(getShard key := (shards c (getShard key))(key \<mapsto> e)), timeWheel := tw\<rparr>)"
  by (auto simp: cache_inv_def shard_inv_def dest: Add_wheel_ok)

lemma inv_del:
  "cache_inv c \<Longrightarrow>
   cache_inv (c\<lparr>shards := (shards c)(getShard key := (shards c (getShard key))(key := None))\<rparr>)"
  by (auto simp: cache_inv_def shard_inv_def)

lemma loadLoop_Command_cases:
  assumes "loadLoop clk n (Command cmd # rest) c = Inr c'"
  obtains (skip) "loadLoop clk (Suc n) rest c = Inr c'"
  | (put) key e tw d now where "Add (timeWheel c) key d now = Inr tw"
      "loadLoop clk (Suc n) rest
         (c\<lparr>shards := (shards c)(getShard key := (shards c (getShard key))(key \<mapsto> e)),
            timeWheel := tw\<rparr>) = Inr c'"
  | (del) key where
      "loadLoop clk (Suc n) rest
         (c\<lparr>shards := (shards c)(getShard key := (shards c (getShard key))(key := None))\<rparr>) = Inr c'"
  using assms by (auto simp: Let_def split: if_splits iface.splits sum.splits)

lemma loadLoop_inv: "cache_inv c \<Longrightarrow> loadLoop clk n f c = Inr c' \<Longrightarrow> cache_inv c'"
proof (induction f arbitrary: n c)
  case Nil
  then show ?case by simp
next
  case (Cons d rest)
  show ?case
  proof (cases d)
    case DecodeError
    with Cons.prems show ?thesis by simp
  next
    case (Command cmd)
    with Cons.prems(2) have "loadLoop clk n (Command cmd # rest) c = Inr c'" by simp
    then show ?thesis
    proof (cases rule: loadLoop_Command_cases)
      case skip
      with Cons.prems(1) show ?thesis by (rule Cons.IH)
    next
      case (put key e tw d now)
      from Cons.prems(1) put(1) have "cache_inv
         (c\<lparr>shards := (shards c)(getShard key := (shards c (getShard key))(key \<mapsto> e)),
            timeWheel := tw\<rparr>)" by (rule inv_put)
      then show ?thesis using put(2) by (rule Cons.IH)
    next
      case (del key)
      from Cons.prems(1) have "cache_inv
         (c\<lparr>shards := (shards c)(getShard key := (shards c (getShard key))(key := None))\<rparr>)"
        by (rule inv_del)
      then show ?thesis using del by (rule Cons.IH)
    qed
  qed
qed

lemma reachable_inv: "reachable c \<Longrightarrow> cache_inv c"
proof (induction rule: reachable.induct)
  case (r_new clk f c)
  have "cache_inv \<lparr>shards = (\<lambda>i. Map.empty), timeWheel = NewTimeWheel 60 second, repo = NewCacheRepo f\<rparr>"
    by (simp add: cache_inv_def wheel_ok_def shard_inv_def NewTimeWheel_def)
  then show ?case using r_new
    by (auto simp: NewGoCacheUsecase_def loadFromDisk_def intro: loadLoop_inv)
next
  case (r_write c cmd q f)
  then show ?case by (simp add: cache_inv_def shard_inv_def)
qed (auto intro: Set_inv Get_inv Delete_inv runTick_inv sweep_inv)

lemma reachable_fresh: "reachable fresh"
proof -
  have "NewGoCacheUsecase (\<lambda>n. 0) (NewCacheRepo []) = Inr fresh"
    by (simp add: NewGoCacheUsecase_def loadFromDisk_def fresh_def NewCacheRepo_def)
  then show ?thesis by (rule r_new)
qed

lemma reachable_wheel_ok: "reachable c \<Longrightarrow> wheel_ok (timeWheel c)"
  using reachable_inv by (simp add: cache_inv_def)

lemma getShard_eq: "getShard key = unat (fnv32 key) mod 32"
  by (simp add: getShard_def numShards_def unat_mod)

lemma getShard_a: "getShard ''a'' = 12"
  by (simp add: getShard_def fnv32_def numShards_def)

lemma unat_of_char: "unat (of_char c :: 32 word) = of_char c"
proof -
  have "(of_char c :: nat) < 256" by (rule nat_of_char_less_256)
  also have "(256::nat) < 2 ^ 32" by simp
  finally have l: "(of_char c :: nat) < 2 ^ LENGTH(32)" by simp
  have "unat (of_nat (of_char c) :: 32 word) = of_char c"
    using l by (simp only: unat_of_nat mod_less)
  then show ?thesis by (simp only: of_nat_of_char)
qed

lemma fnv32_step:
  "unat ((h XOR of_char c) * (16777619 :: 32 word)) = fnv1a_step (unat h) (of_char c)"
  by (simp add: fnv1a_step_def unat_word_ariths unsigned_xor_eq unat_of_char)

lemma fnv32_fold:
  "unat (fold (\<lambda>c h. (h XOR of_char c) * (16777619 :: 32 word)) key h)
     = foldl fnv1a_step (unat h) (map of_char key)"
  by (induction key arbitrary: h) (simp_all add: fnv32_step)

text \<open>The code's hash is the specification's hash of the key's bytes.\<close>

lemma fnv32_is_fnv1a_32: "unat (fnv32 key) = fnv1a_32 (bytes key)"
  by (simp add: fnv32_def fnv1a_32_def bytes_def fnv32_fold)

text \<open>The published FNV-1a test vectors for the empty string, \<open>"a"\<close> and \<open>"foobar"\<close>.\<close>

lemma fnv1a_32_vectors:
  "fnv1a_32 (bytes '''') = 0x811C9DC5" "fnv1a_32 (bytes ''a'') = 0xE40C292C"
  "fnv1a_32 (bytes ''foobar'') = 0xBF9CF968"
  by (simp_all add: fnv1a_32_def bytes_def fnv1a_step_def)

section \<open>Sharding: a key lives in the shard of its hash\<close>

text \<open>
  Claim C6.  The shard of a key is \<open>fnv1a_32\<close> of the key's bytes modulo 32, with
  \<open>fnv1a_32\<close> the function of the FNV reference (it gives the reference's values on the
  published test vectors).  In every state the program reaches (by recovery from any log
  file, by the foreground operations, by wheel ticks and sweeper passes), an entry stored
  under \<open>key\<close> is in that shard and in no other.
\<close>

theorem key_in_shard_fnv1a_32_mod_32:
  "getShard key = fnv1a_32 (bytes key) mod 32
   \<and> (reachable c \<longrightarrow> shards c i key = Some entry \<longrightarrow> i = fnv1a_32 (bytes key) mod 32 \<and> i < 32)
   \<and> fnv1a_32 (bytes '''') = 0x811C9DC5
   \<and> fnv1a_32 (bytes ''a'') = 0xE40C292C
   \<and> fnv1a_32 (bytes ''foobar'') = 0xBF9CF968"
proof -
  have g: "getShard key = fnv1a_32 (bytes key) mod 32" for key
    by (simp add: getShard_eq fnv32_is_fnv1a_32)
  have "i = fnv1a_32 (bytes key) mod 32 \<and> i < 32"
    if r: "reachable c" and s: "shards c i key = Some entry"
  proof -
    from r have "shard_inv c" using reachable_inv by (simp add: cache_inv_def)
    with s have "i = getShard key" by (simp add: shard_inv_def)
    then show ?thesis by (simp add: g)
  qed
  then show ?thesis using g fnv1a_32_vectors by blast
qed

lemma Set_fresh_a:
  "Set fresh ''a'' ''1'' 0 (100 * second) =
     Inr (fresh\<lparr>shards := (shards fresh)(12 := [''a'' \<mapsto> \<lparr>Value = ''1'', ExpiresAt = 0\<rparr>]),
        timeWheel := (timeWheel fresh)\<lparr>slots := (slots (timeWheel fresh))[0 := [''a'' \<mapsto> 100]]\<rparr>,
        repo := \<lparr>file' = [], queue = [[IString ''SET'', IString ''a'', IString ''1'', IInt64 0]]\<rparr>\<rparr>)"
  by (simp add: Set_def getShard_a Add_def fresh_def NewTimeWheel_def NewCacheRepo_def Write_def
      go_mod_def go_div_def second_def unix_def Let_def)

text \<open>The theorem applied after \<open>set("a", "1", 0)\<close> on a new cache: the key is in shard
  \<open>0xE40C292C mod 32 = 12\<close>.\<close>

theorem key_in_shard_fnv1a_32_mod_32_witness:
  "reachable (projr (Set fresh ''a'' ''1'' 0 (100 * second)))
   \<and> shards (projr (Set fresh ''a'' ''1'' 0 (100 * second))) 12 ''a'' = Some \<lparr>Value = ''1'', ExpiresAt = 0\<rparr>
   \<and> (12::nat) = fnv1a_32 (bytes ''a'') mod 32
   \<and> fnv1a_32 (bytes ''a'') = 3826002220
   \<and> getShard ''a'' = 12"
proof -
  let ?c = "projr (Set fresh ''a'' ''1'' 0 (100 * second))"
  have e: "Set fresh ''a'' ''1'' 0 (100 * second) = Inr ?c" by (simp add: Set_fresh_a)
  have r: "reachable ?c" using reachable_fresh e by (rule r_set)
  have s: "shards ?c 12 ''a'' = Some \<lparr>Value = ''1'', ExpiresAt = 0\<rparr>" by (simp add: Set_fresh_a)
  have v: "fnv1a_32 (bytes ''a'') = 3826002220"
    by (simp add: fnv1a_32_def bytes_def fnv1a_step_def)
  show ?thesis
    using key_in_shard_fnv1a_32_mod_32 [of "''a''" ?c 12 "\<lparr>Value = ''1'', ExpiresAt = 0\<rparr>"] r s v
    by simp
qed

section \<open>Delete of an absent key\<close>

text \<open>
  Claim C9.  \<open>Delete\<close> of a key that its shard does not hold returns normally, leaves the
  shards (and the wheel) as they were, and still hands a \<open>["DEL", key]\<close> record to the
  log writer, behind the records handed over before.
\<close>

theorem Delete_absent_key:
  assumes "shards c (getShard key) key = None"
  shows "Delete c key = Inr (c\<lparr>repo := Write (repo c) [IString ''DEL'', IString key]\<rparr>)
       \<and> queue (Write (repo c) [IString ''DEL'', IString key]) = queue (repo c) @ [[IString ''DEL'', IString key]]
       \<and> file' (Write (repo c) [IString ''DEL'', IString key]) = file' (repo c)"
proof -
  have "(shards c (getShard key))(key := None) = shards c (getShard key)"
    using assms by (rule fun_upd_idem)
  then have "(shards c)(getShard key := (shards c (getShard key))(key := None)) = shards c"
    by simp
  then have "Delete c key = Inr (c\<lparr>repo := Write (repo c) [IString ''DEL'', IString key]\<rparr>)"
    by (simp add: Delete_def Let_def)
  then show ?thesis by (simp add: Write_def)
qed

text \<open>On a new cache with an empty log: the only record handed to the log is a \<open>DEL\<close>, for
  a key that never had a \<open>SET\<close> record.\<close>

theorem Delete_absent_key_witness:
  "shards fresh (getShard ''a'') ''a'' = None
   \<and> Delete fresh ''a'' = Inr (fresh\<lparr>repo := \<lparr>file' = [], queue = [[IString ''DEL'', IString ''a'']]\<rparr>\<rparr>)
   \<and> queue (repo (projr (Delete fresh ''a''))) = [[IString ''DEL'', IString ''a'']]"
proof -
  have h: "shards fresh (getShard ''a'') ''a'' = None" by (simp add: fresh_def)
  show ?thesis using Delete_absent_key [OF h] h
    by (simp add: fresh_def NewCacheRepo_def Write_def)
qed

section \<open>Set\<close>

text \<open>
  Claim C7.  In a reachable state, \<open>Set\<close> with a TTL that is not negative returns normally;
  afterwards the key's shard holds the value with \<open>ExpiresAt\<close> the Unix second of
  \<open>now + ttl\<close> when \<open>ttl > 0\<close> and \<open>0\<close> when \<open>ttl = 0\<close>, every other entry is as before, and
  the record \<open>["SET", key, value, expires_at]\<close> has been handed to the log writer, behind
  the records handed over before; the file itself is not touched by \<open>Set\<close>.
\<close>

theorem Set_stores_and_logs:
  assumes "reachable c" and "0 \<le> ttl"
  shows "\<exists>c'. Set c key val ttl now = Inr c'
     \<and> shards c' (getShard key) key
         = Some \<lparr>Value = val, ExpiresAt = (if ttl > 0 then unix (now + ttl) else 0)\<rparr>
     \<and> (\<forall>i k. (i, k) \<noteq> (getShard key, key) \<longrightarrow> shards c' i k = shards c i k)
     \<and> repo c' = Write (repo c) [IString ''SET'', IString key, IString val,
                                  IInt64 (if ttl > 0 then unix (now + ttl) else 0)]
     \<and> queue (repo c') = queue (repo c) @ [[IString ''SET'', IString key, IString val,
                                  IInt64 (if ttl > 0 then unix (now + ttl) else 0)]]
     \<and> file' (repo c') = file' (repo c)"
proof -
  have w: "wheel_ok (timeWheel c)" using assms(1) by (rule reachable_wheel_ok)
  show ?thesis
    using Add_ok [OF w assms(2), of key now]
    by (simp add: Set_def Let_def) (simp add: Write_def)
qed

text \<open>
  Claim C10.  In a reachable state, \<open>Set\<close> with any TTL that is not negative, \<open>0\<close> included,
  puts the key into wheel slot \<open>(index + \<lfloor>ttl / tick\<rfloor>) mod 60\<close> together with the Unix second
  of \<open>now + ttl\<close>, and leaves the index alone; with \<open>ttl = 0\<close> the key sits in the current
  slot with the current second, so the slot comes up again after one rotation.
\<close>

theorem Set_registers_in_wheel:
  assumes "reachable c" and "0 \<le> ttl"
  shows "\<exists>c'. Set c key val ttl now = Inr c'
     \<and> nat ((index (timeWheel c) + ttl div tick (timeWheel c)) mod 60) < length (slots (timeWheel c'))
     \<and> (slots (timeWheel c') ! nat ((index (timeWheel c) + ttl div tick (timeWheel c)) mod 60)) key
          = Some (unix (now + ttl))
     \<and> index (timeWheel c') = index (timeWheel c)
     \<and> (ttl = 0 \<longrightarrow> (slots (timeWheel c') ! nat (index (timeWheel c))) key = Some (unix now))"
proof -
  have w: "wheel_ok (timeWheel c)" using assms(1) by (rule reachable_wheel_ok)
  have b: "nat ((index (timeWheel c) + ttl div second) mod 60) < 60" by simp
  show ?thesis
    using Add_ok [OF w assms(2), of key now] w b
    by (auto simp add: Set_def Let_def wheel_ok_def simp del: nat_less_numeral_power_cancel_iff)
qed


lemma unix_seconds: "unix (n * second) = n"
  by (simp add: unix_def second_def)

text \<open>\<open>set("a", "1", 5s)\<close> at second 100 on a new cache.\<close>

theorem Set_stores_and_logs_witness:
  "reachable fresh \<and> (0::int) \<le> 5 * second
   \<and> shards (projr (Set fresh ''a'' ''1'' (5 * second) (100 * second))) (getShard ''a'') ''a''
       = Some \<lparr>Value = ''1'', ExpiresAt = 105\<rparr>
   \<and> queue (repo (projr (Set fresh ''a'' ''1'' (5 * second) (100 * second))))
       = [[IString ''SET'', IString ''a'', IString ''1'', IInt64 105]]"
proof -
  have h: "(0::int) \<le> 5 * second" by (simp add: second_def)
  have p: "(0::int) < 5 * second" by (simp add: second_def)
  obtain c' where "Set fresh ''a'' ''1'' (5 * second) (100 * second) = Inr c'"
    and "shards c' (getShard ''a'') ''a''
         = Some \<lparr>Value = ''1'', ExpiresAt = (if 5 * second > 0 then unix (100 * second + 5 * second) else 0)\<rparr>"
    and "queue (repo c') = queue (repo fresh) @ [[IString ''SET'', IString ''a'', IString ''1'',
                                  IInt64 (if 5 * second > 0 then unix (100 * second + 5 * second) else 0)]]"
    using Set_stores_and_logs [OF reachable_fresh h, of "''a''" "''1''" "100 * second"] by blast
  then show ?thesis using reachable_fresh h p
    by (simp add: unix_seconds fresh_def NewCacheRepo_def)
qed

text \<open>\<open>set("a", "1", 0)\<close> at second 100 on a new cache: slot 0 holds the key with second 100.\<close>

theorem Set_registers_in_wheel_witness:
  "reachable fresh \<and> (0::int) \<le> 0
   \<and> (slots (timeWheel (projr (Set fresh ''a'' ''1'' 0 (100 * second)))) ! 0) ''a'' = Some 100
   \<and> index (timeWheel (projr (Set fresh ''a'' ''1'' 0 (100 * second)))) = 0"
proof -
  have h: "(0::int) \<le> 0" by simp
  have i: "index (timeWheel fresh) = 0" "tick (timeWheel fresh) = second"
    by (simp_all add: fresh_def NewTimeWheel_def)
  obtain c' where "Set fresh ''a'' ''1'' 0 (100 * second) = Inr c'"
    and "(slots (timeWheel c') ! nat ((index (timeWheel fresh) + 0 div tick (timeWheel fresh)) mod 60)) ''a''
          = Some (unix (100 * second + 0))"
    and "index (timeWheel c') = index (timeWheel fresh)"
    using Set_registers_in_wheel [OF reachable_fresh h, of "''a''" "''1''" "100 * second"] by blast
  then show ?thesis using reachable_fresh i
    by (simp add: unix_seconds)
qed

lemma copyLoop_Inr:
  "copyLoop E L out = Inr out' \<Longrightarrow> out' = out @ filter (kept E) (decodeAll L) \<and> DecodeError \<notin> set L"
proof (induction L arbitrary: out)
  case Nil
  then show ?case by simp
next
  case (Cons d L)
  show ?case
  proof (cases d)
    case DecodeError
    with Cons.prems show ?thesis by simp
  next
    case (Command cmd)
    consider (keep) "kept E cmd" "copyLoop E L (out @ [cmd]) = Inr out'"
      | (drop) "\<not> kept E cmd" "copyLoop E L out = Inr out'"
      using Cons.prems unfolding Command
      by (auto simp: kept_def recordKey_def split: if_splits iface.splits)
    then show ?thesis
    proof cases
      case keep
      from Cons.IH [OF keep(2)] keep(1) show ?thesis by (simp add: Command)
    next
      case drop
      from Cons.IH [OF drop(2)] drop(1) show ?thesis by (simp add: Command)
    qed
  qed
qed

lemma copyLoop_kept:
  "\<forall>cmd \<in> set cs. kept E cmd \<Longrightarrow> copyLoop E (map Command cs) out = Inr (out @ cs)"
proof (induction cs arbitrary: out)
  case Nil
  then show ?case by simp
next
  case (Cons cmd cs)
  from Cons.prems have k: "kept E cmd" and r: "\<forall>c \<in> set cs. kept E c" by simp_all
  have "copyLoop E (Command cmd # map Command cs) out = copyLoop E (map Command cs) (out @ [cmd])"
    using k by (auto simp: kept_def recordKey_def split: if_splits iface.splits option.splits)
  then show ?case using Cons.IH [OF r] by simp
qed

lemma decodeAll_map_Command: "decodeAll (map Command cs) = cs"
  by (induction cs) simp_all

lemma recordsFor_kept:
  "key \<notin> set E \<Longrightarrow> recordsFor key (filter (kept E) cs) = recordsFor key cs"
  unfolding recordsFor_def filter_filter
  by (rule filter_cong) (auto simp: kept_def)

lemma CleanupAOF_None:
  assumes "CleanupAOF r E = (None, r')"
  shows "r' = r\<lparr>file' := map Command (filter (kept E) (decodeAll (file' r)))\<rparr>"
proof -
  from assms obtain out where o: "copyLoop E (file' r) [] = Inr out" and r': "r' = r\<lparr>file' := map Command out\<rparr>"
    by (auto simp: CleanupAOF_def split: sum.splits)
  from copyLoop_Inr [OF o] r' show ?thesis by simp
qed

lemma CleanupAOF_sampleLog:
  "CleanupAOF (NewCacheRepo sampleLog) [''b''] =
     (None, NewCacheRepo [Command (setRecord ''a'' ''1'' 0), Command (delRecord ''a''),
                          Command (setRecord ''a'' ''3'' 0)])"
  by (simp add: CleanupAOF_def NewCacheRepo_def sampleLog_def setRecord_def delRecord_def)

lemma copyLoop_written_records:
  assumes "\<forall>d \<in> set L. (\<exists>key val e. d = Command (setRecord key val e)) \<or> (\<exists>key. d = Command (delRecord key))"
  shows "\<exists>out'. copyLoop E L out = Inr out'"
  using assms
proof (induction L arbitrary: out)
  case Nil
  then show ?case by simp
next
  case (Cons d L)
  from Cons.prems have r: "\<forall>d \<in> set L. (\<exists>key val e. d = Command (setRecord key val e)) \<or> (\<exists>key. d = Command (delRecord key))"
    by simp
  from Cons.prems consider (s) key val e where "d = Command (setRecord key val e)"
    | (d) key where "d = Command (delRecord key)" by auto
  then show ?case
  proof cases
    case s
    then show ?thesis using Cons.IH [OF r] by (simp add: setRecord_def)
  next
    case d
    then show ?thesis using Cons.IH [OF r] by (simp add: delRecord_def)
  qed
qed

section \<open>Compaction\<close>

text \<open>
  Claim C3.  When \<open>CleanupAOF\<close> succeeds with the expired keys \<open>E\<close>: for every key outside
  \<open>E\<close> the records of that key in the new log are those of the old log, in the same order,
  so its last record is the old last record; no \<open>SET\<close> or \<open>DEL\<close> record with a key in \<open>E\<close>
  is in the new log; and every record of the new log decodes.
\<close>

theorem compaction_keeps_other_keys_drops_expired:
  assumes "CleanupAOF r E = (None, r')"
  shows "(\<forall>key. key \<notin> set E \<longrightarrow>
            recordsFor key (decodeAll (file' r')) = recordsFor key (decodeAll (file' r))
          \<and> lastRecord key (decodeAll (file' r')) = lastRecord key (decodeAll (file' r)))
       \<and> (\<forall>cmd key. Command cmd \<in> set (file' r') \<longrightarrow> recordKey cmd = Some key \<longrightarrow> key \<notin> set E)
       \<and> DecodeError \<notin> set (file' r')"
proof -
  have f: "file' r' = map Command (filter (kept E) (decodeAll (file' r)))"
    using CleanupAOF_None [OF assms] by simp
  have a: "recordsFor key (decodeAll (file' r')) = recordsFor key (decodeAll (file' r))"
    if "key \<notin> set E" for key
    using that by (simp add: f decodeAll_map_Command recordsFor_kept)
  have b: "key \<notin> set E" if "Command cmd \<in> set (file' r')" "recordKey cmd = Some key" for cmd key
  proof -
    from that(1) have "kept E cmd" by (auto simp: f)
    with that(2) show ?thesis by (simp add: kept_def)
  qed
  have c: "DecodeError \<notin> set (file' r')" by (auto simp: f)
  from a b c show ?thesis by (simp add: lastRecord_def)
qed

text \<open>On the sample log with \<open>E = {"b"}\<close>: the records of \<open>"a"\<close> stay, with
  \<open>SET a 3\<close> last; nothing of \<open>"b"\<close> is left.\<close>

theorem compaction_keeps_other_keys_drops_expired_witness:
  "CleanupAOF (NewCacheRepo sampleLog) [''b'']
     = (None, NewCacheRepo [Command (setRecord ''a'' ''1'' 0), Command (delRecord ''a''),
                            Command (setRecord ''a'' ''3'' 0)])
   \<and> ''a'' \<notin> set [''b'']
   \<and> lastRecord ''a'' (decodeAll (file' (snd (CleanupAOF (NewCacheRepo sampleLog) [''b'']))))
       = lastRecord ''a'' (decodeAll sampleLog)
   \<and> lastRecord ''a'' (decodeAll sampleLog) = Some (setRecord ''a'' ''3'' 0)
   \<and> recordsFor ''b'' (decodeAll (file' (snd (CleanupAOF (NewCacheRepo sampleLog) [''b''])))) = []"
proof -
  have l: "lastRecord ''a'' (decodeAll sampleLog) = Some (setRecord ''a'' ''3'' 0)"
    by (simp add: lastRecord_def recordsFor_def recordKey_def sampleLog_def setRecord_def delRecord_def)
  have b: "recordsFor ''b'' (decodeAll (file' (snd (CleanupAOF (NewCacheRepo sampleLog) [''b''])))) = []"
    by (simp add: CleanupAOF_sampleLog)
      (simp add: NewCacheRepo_def recordsFor_def recordKey_def setRecord_def delRecord_def)
  have k: "''a'' \<notin> set [''b'']" by simp
  have "lastRecord ''a'' (decodeAll (file' (NewCacheRepo [Command (setRecord ''a'' ''1'' 0),
            Command (delRecord ''a''), Command (setRecord ''a'' ''3'' 0)])))
        = lastRecord ''a'' (decodeAll (file' (NewCacheRepo sampleLog)))"
    using compaction_keeps_other_keys_drops_expired [OF CleanupAOF_sampleLog] k by blast
  then have e: "lastRecord ''a'' (decodeAll (file' (snd (CleanupAOF (NewCacheRepo sampleLog) [''b'']))))
        = lastRecord ''a'' (decodeAll sampleLog)"
    by (simp add: CleanupAOF_sampleLog) (simp add: NewCacheRepo_def)
  show ?thesis using CleanupAOF_sampleLog k e l b by simp
qed

text \<open>
  Claim C8.  Compacting a second time with the same expired keys changes nothing: the
  log after the second run, and the value the second run returns, are those of the first.
  (A run that fails leaves the log as it found it.)
\<close>

theorem compaction_idempotent:
  "CleanupAOF (snd (CleanupAOF r E)) E = CleanupAOF r E"
proof (cases "copyLoop E (file' r) []")
  case (Inl e)
  then show ?thesis by (simp add: CleanupAOF_def)
next
  case (Inr out)
  from copyLoop_Inr [OF Inr] have "\<forall>cmd \<in> set out. kept E cmd" by simp
  then have "copyLoop E (map Command out) [] = Inr out"
    using copyLoop_kept [of out E "[]"] by simp
  with Inr show ?thesis by (simp add: CleanupAOF_def)
qed

text \<open>On the sample log: the second run returns the log of the first.\<close>

theorem compaction_idempotent_witness:
  "CleanupAOF (snd (CleanupAOF (NewCacheRepo sampleLog) [''b''])) [''b'']
     = (None, NewCacheRepo [Command (setRecord ''a'' ''1'' 0), Command (delRecord ''a''),
                            Command (setRecord ''a'' ''3'' 0)])"
  using compaction_idempotent [of "NewCacheRepo sampleLog" "[''b'']"]
  by (simp add: CleanupAOF_sampleLog)

section \<open>Recovery\<close>

lemma loadLoop_replay:
  assumes "wheel_ok (timeWheel c)"
  shows "\<exists>c'. loadLoop clk n (map (\<lambda>r. Command (encodeRecord r)) rs) c = Inr c'
           \<and> shards c' = replay clk n rs (shards c) \<and> repo c' = repo c"
  using assms
proof (induction rs arbitrary: n c)
  case Nil
  then show ?case by simp
next
  case (Cons r rs)
  let ?rest = "map (\<lambda>r. Command (encodeRecord r)) rs"
  have "\<exists>c1. loadLoop clk n (Command (encodeRecord r) # ?rest) c = loadLoop clk (Suc n) ?rest c1
          \<and> shards c1 = applyRecord (unix (clk n)) (shards c) r
          \<and> repo c1 = repo c \<and> wheel_ok (timeWheel c1)"
  proof (cases r)
    case (DelRec key)
    let ?c1 = "c\<lparr>shards := (shards c)(getShard key := (shards c (getShard key))(key := None))\<rparr>"
    have "loadLoop clk n (Command (encodeRecord r) # ?rest) c = loadLoop clk (Suc n) ?rest ?c1"
      by (simp add: DelRec delRecord_def Let_def)
    moreover have "shards ?c1 = applyRecord (unix (clk n)) (shards c) r"
      by (simp add: DelRec)
    moreover have "repo ?c1 = repo c \<and> wheel_ok (timeWheel ?c1)"
      using Cons.prems by simp
    ultimately show ?thesis by blast
  next
    case (SetRec key val e)
    show ?thesis
    proof (cases "e = 0 \<or> unix (clk n) < e")
      case False
      then have "loadLoop clk n (Command (encodeRecord r) # ?rest) c = loadLoop clk (Suc n) ?rest c"
        by (simp add: SetRec setRecord_def)
      moreover have "shards c = applyRecord (unix (clk n)) (shards c) r"
        using False by (simp add: SetRec)
      ultimately show ?thesis using Cons.prems by blast
    next
      case True
      have z: "(0::int) \<le> 0" by simp
      obtain tw where a: "Add (timeWheel c) key 0 (clk n) = Inr tw"
        using Add_ok [OF Cons.prems z] by blast
      then have w: "wheel_ok tw" using Cons.prems Add_wheel_ok by blast
      let ?c1 = "c\<lparr>shards := (shards c)(getShard key := (shards c (getShard key))(key \<mapsto> \<lparr>Value = val, ExpiresAt = e\<rparr>)),
                   timeWheel := tw\<rparr>"
      have "loadLoop clk n (Command (encodeRecord r) # ?rest) c = loadLoop clk (Suc n) ?rest ?c1"
        using True a by (simp add: SetRec setRecord_def Let_def)
      moreover have "shards ?c1 = applyRecord (unix (clk n)) (shards c) r"
        using True by (simp add: SetRec)
      moreover have "repo ?c1 = repo c \<and> wheel_ok (timeWheel ?c1)"
        using w by simp
      ultimately show ?thesis by blast
    qed
  qed
  then obtain c1 where s: "loadLoop clk n (Command (encodeRecord r) # ?rest) c = loadLoop clk (Suc n) ?rest c1"
    and a: "shards c1 = applyRecord (unix (clk n)) (shards c) r"
    and p: "repo c1 = repo c" and w: "wheel_ok (timeWheel c1)" by blast
  from Cons.IH [OF w, of "Suc n"] obtain c' where "loadLoop clk (Suc n) ?rest c1 = Inr c'"
    and "shards c' = replay clk (Suc n) rs (shards c1)" and "repo c' = repo c1" by blast
  then show ?case using s a p by simp
qed

text \<open>Every entry left by the replay of records \<open>n, n + 1, \<dots>\<close> either never expires or
  expires after the second the clock showed when one of the records was applied.\<close>

lemma applyRecord_unexpired:
  assumes "\<forall>i key entry. sh i key = Some entry \<longrightarrow>
             ExpiresAt entry = 0 \<or> (\<exists>m < n. unix (clk m) < ExpiresAt entry)"
  shows "\<forall>i key entry. applyRecord (unix (clk n)) sh r i key = Some entry \<longrightarrow>
             ExpiresAt entry = 0 \<or> (\<exists>m < Suc n. unix (clk m) < ExpiresAt entry)"
proof (intro allI impI)
  fix i key entry
  assume a: "applyRecord (unix (clk n)) sh r i key = Some entry"
  have old: "ExpiresAt entry = 0 \<or> (\<exists>m < Suc n. unix (clk m) < ExpiresAt entry)"
    if "sh i key = Some entry"
    using assms that less_Suc_eq by blast
  show "ExpiresAt entry = 0 \<or> (\<exists>m < Suc n. unix (clk m) < ExpiresAt entry)"
  proof (cases r)
    case (DelRec k)
    with a have "sh i key = Some entry" by (auto split: if_splits)
    then show ?thesis by (rule old)
  next
    case (SetRec k v e)
    show ?thesis
    proof (cases "sh i key = Some entry")
      case True
      then show ?thesis by (rule old)
    next
      case False
      with a SetRec have "entry = \<lparr>Value = v, ExpiresAt = e\<rparr>" and "e = 0 \<or> unix (clk n) < e"
        by (auto split: if_splits)
      then show ?thesis by auto
    qed
  qed
qed

lemma replay_unexpired:
  assumes "\<forall>i key entry. sh i key = Some entry \<longrightarrow>
             ExpiresAt entry = 0 \<or> (\<exists>m < n. unix (clk m) < ExpiresAt entry)"
  shows "\<forall>i key entry. replay clk n rs sh i key = Some entry \<longrightarrow>
             ExpiresAt entry = 0 \<or> (\<exists>m < n + length rs. unix (clk m) < ExpiresAt entry)"
  using assms
proof (induction rs arbitrary: n sh)
  case Nil
  then show ?case by simp
next
  case (Cons r rs)
  have "\<forall>i key entry. applyRecord (unix (clk n)) sh r i key = Some entry \<longrightarrow>
             ExpiresAt entry = 0 \<or> (\<exists>m < Suc n. unix (clk m) < ExpiresAt entry)"
    using Cons.prems by (rule applyRecord_unexpired)
  from Cons.IH [OF this] show ?case by simp
qed

text \<open>
  Claim C4, as the code has it.  Recovery on a log of \<open>SET\<close> and \<open>DEL\<close> records completes,
  and the shards are those obtained by applying the records in order, a \<open>SET\<close> being
  inserted into the shard of its key exactly when \<open>exp = 0\<close> or \<open>exp\<close> is after the second
  the clock shows when that record is applied, a \<open>DEL\<close> removing the key from its shard.
  Consequently every entry of the recovered cache has \<open>expires_at = 0\<close> or an
  \<open>expires_at\<close> after the second at which one of the records was applied; when the clock
  shows one second \<open>now\<close> during the whole replay, no entry has \<open>0 < expires_at \<le> now\<close>.
\<close>

theorem recovery_applies_records_at_their_clock:
  "\<exists>c. NewGoCacheUsecase clk (NewCacheRepo (map (\<lambda>r. Command (encodeRecord r)) rs)) = Inr c
      \<and> shards c = replay clk 0 rs (\<lambda>i. Map.empty)
      \<and> (\<forall>i key entry. shards c i key = Some entry \<longrightarrow>
            ExpiresAt entry = 0 \<or> (\<exists>m < length rs. unix (clk m) < ExpiresAt entry))
      \<and> ((\<forall>m < length rs. unix (clk m) = now) \<longrightarrow>
           (\<forall>i key entry. shards c i key = Some entry \<longrightarrow> \<not> (0 < ExpiresAt entry \<and> ExpiresAt entry \<le> now)))"
proof -
  let ?c0 = "\<lparr>shards = (\<lambda>i. Map.empty), timeWheel = NewTimeWheel 60 second,
              repo = NewCacheRepo (map (\<lambda>r. Command (encodeRecord r)) rs)\<rparr>"
  have w: "wheel_ok (timeWheel ?c0)" by (simp add: wheel_ok_def NewTimeWheel_def)
  obtain c where l: "loadLoop clk 0 (map (\<lambda>r. Command (encodeRecord r)) rs) ?c0 = Inr c"
    and s: "shards c = replay clk 0 rs (shards ?c0)"
    using loadLoop_replay [OF w] by blast
  have n: "NewGoCacheUsecase clk (NewCacheRepo (map (\<lambda>r. Command (encodeRecord r)) rs)) = Inr c"
    using l by (simp add: NewGoCacheUsecase_def loadFromDisk_def NewCacheRepo_def)
  have s': "shards c = replay clk 0 rs (\<lambda>i. Map.empty)" using s by simp
  have e: "\<forall>i key entry. (\<lambda>i. Map.empty) i key = Some entry \<longrightarrow>
             ExpiresAt entry = 0 \<or> (\<exists>m < 0. unix (clk m) < ExpiresAt (entry::CacheItem))"
    by simp
  have g: "\<forall>i key entry. shards c i key = Some entry \<longrightarrow>
            ExpiresAt entry = 0 \<or> (\<exists>m < length rs. unix (clk m) < ExpiresAt entry)"
    using replay_unexpired [OF e, of rs] by (simp add: s')
  have u: "\<forall>i key entry. shards c i key = Some entry \<longrightarrow> \<not> (0 < ExpiresAt entry \<and> ExpiresAt entry \<le> now)"
    if k: "\<forall>m < length rs. unix (clk m) = now"
  proof (intro allI impI)
    fix i key entry
    assume "shards c i key = Some entry"
    with g have "ExpiresAt entry = 0 \<or> (\<exists>m < length rs. unix (clk m) < ExpiresAt entry)" by blast
    with k have "ExpiresAt entry = 0 \<or> now < ExpiresAt entry" by auto
    then show "\<not> (0 < ExpiresAt entry \<and> ExpiresAt entry \<le> now)" by linarith
  qed
  from n s' g u show ?thesis by blast
qed

text \<open>A log with a live \<open>SET\<close>, an expired \<open>SET\<close> and a \<open>DEL\<close>, replayed within second 100.\<close>

theorem recovery_applies_records_at_their_clock_witness:
  "(\<forall>m. unix (constClock (100 * second) m) = 100)
   \<and> (\<exists>c. NewGoCacheUsecase (constClock (100 * second))
             (NewCacheRepo [Command (setRecord ''a'' ''1'' 0), Command (setRecord ''b'' ''2'' 100),
                            Command (setRecord ''c'' ''3'' 101), Command (delRecord ''a'')]) = Inr c
        \<and> shards c (getShard ''a'') ''a'' = None
        \<and> shards c (getShard ''b'') ''b'' = None
        \<and> shards c (getShard ''c'') ''c'' = Some \<lparr>Value = ''3'', ExpiresAt = 101\<rparr>
        \<and> (\<forall>i key entry. shards c i key = Some entry \<longrightarrow> \<not> (0 < ExpiresAt entry \<and> ExpiresAt entry \<le> 100)))"
proof -
  have k: "\<forall>m < length [SetRec ''a'' ''1'' 0, SetRec ''b'' ''2'' 100, SetRec ''c'' ''3'' 101, DelRec ''a''].
       unix (constClock (100 * second) m) = 100"
    by (simp add: constClock_def unix_seconds)
  have g: "getShard ''a'' \<noteq> getShard ''c''" "getShard ''b'' \<noteq> getShard ''c''"
    by (simp_all add: getShard_def fnv32_def numShards_def)
  have m: "map (\<lambda>r. Command (encodeRecord r)) [SetRec ''a'' ''1'' 0, SetRec ''b'' ''2'' 100, SetRec ''c'' ''3'' 101, DelRec ''a'']
     = [Command (setRecord ''a'' ''1'' 0), Command (setRecord ''b'' ''2'' 100),
                            Command (setRecord ''c'' ''3'' 101), Command (delRecord ''a'')]" by simp
  obtain c where n: "NewGoCacheUsecase (constClock (100 * second))
        (NewCacheRepo (map (\<lambda>r. Command (encodeRecord r))
           [SetRec ''a'' ''1'' 0, SetRec ''b'' ''2'' 100, SetRec ''c'' ''3'' 101, DelRec ''a''])) = Inr c"
    and s: "shards c = replay (constClock (100 * second)) 0
           [SetRec ''a'' ''1'' 0, SetRec ''b'' ''2'' 100, SetRec ''c'' ''3'' 101, DelRec ''a''] (\<lambda>i. Map.empty)"
    and u: "(\<forall>m < length [SetRec ''a'' ''1'' 0, SetRec ''b'' ''2'' 100, SetRec ''c'' ''3'' 101, DelRec ''a''].
               unix (constClock (100 * second) m) = 100) \<longrightarrow>
           (\<forall>i key entry. shards c i key = Some entry \<longrightarrow> \<not> (0 < ExpiresAt entry \<and> ExpiresAt entry \<le> 100))"
    using recovery_applies_records_at_their_clock [of "constClock (100 * second)"
        "[SetRec ''a'' ''1'' 0, SetRec ''b'' ''2'' 100, SetRec ''c'' ''3'' 101, DelRec ''a'']" 100]
    by blast
  have a: "shards c (getShard ''a'') ''a'' = None"
    "shards c (getShard ''b'') ''b'' = None"
    "shards c (getShard ''c'') ''c'' = Some \<lparr>Value = ''3'', ExpiresAt = 101\<rparr>"
    using g by (simp_all add: s constClock_def unix_seconds)
  from u k have "\<forall>i key entry. shards c i key = Some entry \<longrightarrow> \<not> (0 < ExpiresAt entry \<and> ExpiresAt entry \<le> 100)"
    by (rule mp)
  moreover have "\<forall>m. unix (constClock (100 * second) m) = 100"
    by (simp add: constClock_def unix_seconds)
  ultimately show ?thesis using n a unfolding m by blast
qed

text \<open>The claim as it is written fails when the replay crosses a second: with the clock at
  second 100 for the first record and at second 102 for the second, \<open>SET a\<close> with expiry
  101 is inserted (\<open>100 < 101\<close>) and is still in its shard when recovery ends, although
  \<open>0 < 101 \<le> 102\<close>.\<close>

theorem recovery_across_seconds_keeps_expired_entry:
  "NewGoCacheUsecase (stepClock (100 * second) (2 * second))
       (NewCacheRepo [Command (setRecord ''a'' ''1'' 101), Command (setRecord ''b'' ''2'' 0)])
     = Inr (projr (NewGoCacheUsecase (stepClock (100 * second) (2 * second))
              (NewCacheRepo [Command (setRecord ''a'' ''1'' 101), Command (setRecord ''b'' ''2'' 0)])))
   \<and> shards (projr (NewGoCacheUsecase (stepClock (100 * second) (2 * second))
              (NewCacheRepo [Command (setRecord ''a'' ''1'' 101), Command (setRecord ''b'' ''2'' 0)])))
         (getShard ''a'') ''a'' = Some \<lparr>Value = ''1'', ExpiresAt = 101\<rparr>
   \<and> unix (stepClock (100 * second) (2 * second) 1) = 102
   \<and> (0::int) < 101 \<and> (101::int) \<le> 102"
proof -
  have g: "getShard ''a'' = 12" "getShard ''b'' = 5"
    by (simp_all add: getShard_def fnv32_def numShards_def)
  have t: "unix (stepClock (100 * second) (2 * second) 0) = 100"
    "unix (stepClock (100 * second) (2 * second) 1) = 102"
    by (simp_all add: stepClock_def unix_def second_def)
  have "\<exists>c. NewGoCacheUsecase (stepClock (100 * second) (2 * second))
       (NewCacheRepo [Command (setRecord ''a'' ''1'' 101), Command (setRecord ''b'' ''2'' 0)]) = Inr c
       \<and> shards c 12 ''a'' = Some \<lparr>Value = ''1'', ExpiresAt = 101\<rparr>"
    using t by (simp add: NewGoCacheUsecase_def loadFromDisk_def NewCacheRepo_def setRecord_def g
        Add_def NewTimeWheel_def go_mod_def go_div_def Let_def) (simp add: second_def)
  then show ?thesis using t(2) by (auto simp: g)
qed

section \<open>Replay of a damaged log\<close>

lemma loadLoop_stops_at_DecodeError:
  "loadLoop clk n (pre @ DecodeError # post) c = loadLoop clk n pre c"
proof (induction pre arbitrary: n c)
  case Nil
  show ?case by simp
next
  case (Cons d pre)
  show ?case
  proof (cases d)
    case DecodeError
    then show ?thesis by simp
  next
    case (Command cmd)
    show ?thesis unfolding Command
      by (simp add: Cons.IH Let_def split: iface.splits sum.splits)
  qed
qed

text \<open>
  Claim C5, as the code has it.  A record on which the decoder fails (malformed or
  truncated) ends the replay as the end of the file would: recovery returns what the
  replay of the records before it returns, with the state built from them.  A record
  that decodes but is neither a four-element \<open>SET\<close> nor a two-element \<open>DEL\<close> tuple does
  not end the replay: it is passed over and the records after it are applied.
\<close>

theorem replay_stops_at_decode_error_and_skips_unknown:
  "loadLoop clk n (pre @ DecodeError # post) c = loadLoop clk n pre c
   \<and> (\<not> (length cmd = 4 \<and> cmd ! 0 = IString ''SET'') \<and> \<not> (length cmd = 2 \<and> cmd ! 0 = IString ''DEL'')
        \<longrightarrow> loadLoop clk n (Command cmd # rest) c = loadLoop clk (Suc n) rest c)"
  by (simp add: loadLoop_stops_at_DecodeError)

text \<open>A truncated record after \<open>SET a\<close>: the cache holds \<open>a\<close> and not \<open>b\<close>.  An unknown
  record before \<open>SET a\<close>: the replay goes on to \<open>SET a\<close>.\<close>

theorem replay_stops_at_decode_error_and_skips_unknown_witness:
  "loadLoop (constClock 0) 0 ([Command (setRecord ''a'' ''1'' 0)] @ DecodeError # [Command (setRecord ''b'' ''2'' 0)]) fresh
     = loadLoop (constClock 0) 0 [Command (setRecord ''a'' ''1'' 0)] fresh
   \<and> (\<not> (length [IString ''PING''] = 4 \<and> [IString ''PING''] ! 0 = IString ''SET'')
      \<and> \<not> (length [IString ''PING''] = 2 \<and> [IString ''PING''] ! 0 = IString ''DEL''))
   \<and> loadLoop (constClock 0) 0 (Command [IString ''PING''] # [Command (setRecord ''a'' ''1'' 0)]) fresh
     = loadLoop (constClock 0) (Suc 0) [Command (setRecord ''a'' ''1'' 0)] fresh
   \<and> loadLoop (constClock 0) (Suc 0) [Command (setRecord ''a'' ''1'' 0)] fresh
     = Inr (fresh\<lparr>shards := (shards fresh)(12 := [''a'' \<mapsto> \<lparr>Value = ''1'', ExpiresAt = 0\<rparr>]),
        timeWheel := (timeWheel fresh)\<lparr>slots := (slots (timeWheel fresh))[0 := [''a'' \<mapsto> 0]]\<rparr>\<rparr>)"
proof -
  have e: "loadLoop (constClock 0) (Suc 0) [Command (setRecord ''a'' ''1'' 0)] fresh
     = Inr (fresh\<lparr>shards := (shards fresh)(12 := [''a'' \<mapsto> \<lparr>Value = ''1'', ExpiresAt = 0\<rparr>]),
        timeWheel := (timeWheel fresh)\<lparr>slots := (slots (timeWheel fresh))[0 := [''a'' \<mapsto> 0]]\<rparr>\<rparr>)"
    by (simp add: setRecord_def getShard_a Add_def fresh_def NewTimeWheel_def constClock_def
        go_mod_def go_div_def second_def unix_def Let_def)
  show ?thesis
    using replay_stops_at_decode_error_and_skips_unknown
      [of "constClock 0" 0 "[Command (setRecord ''a'' ''1'' 0)]" "[Command (setRecord ''b'' ''2'' 0)]"
          fresh "[IString ''PING'']" "[Command (setRecord ''a'' ''1'' 0)]"] e
    by simp
qed

text \<open>The claim as it is written fails on an unknown record: the replay of
  \<open>[PING, SET a]\<close> is not the replay of the empty prefix before \<open>PING\<close>.\<close>

theorem unknown_record_does_not_end_replay:
  "loadLoop (constClock 0) 0 ([] @ Command [IString ''PING''] # [Command (setRecord ''a'' ''1'' 0)]) fresh
     \<noteq> loadLoop (constClock 0) 0 [] fresh"
proof -
  let ?c = "fresh\<lparr>shards := (shards fresh)(12 := [''a'' \<mapsto> \<lparr>Value = ''1'', ExpiresAt = 0\<rparr>]),
        timeWheel := (timeWheel fresh)\<lparr>slots := (slots (timeWheel fresh))[0 := [''a'' \<mapsto> 0]]\<rparr>\<rparr>"
  have "?c \<noteq> fresh"
  proof
    assume "?c = fresh"
    then have "shards ?c 12 ''a'' = shards fresh 12 ''a''"
      by (rule arg_cong [where f = "\<lambda>c. shards c 12 ''a''"])
    then show False by (simp add: fresh_def)
  qed
  moreover have "loadLoop (constClock 0) 0 ([] @ Command [IString ''PING''] # [Command (setRecord ''a'' ''1'' 0)]) fresh
     = Inr (fresh\<lparr>shards := (shards fresh)(12 := [''a'' \<mapsto> \<lparr>Value = ''1'', ExpiresAt = 0\<rparr>]),
        timeWheel := (timeWheel fresh)\<lparr>slots := (slots (timeWheel fresh))[0 := [''a'' \<mapsto> 0]]\<rparr>\<rparr>)"
    by (simp add: setRecord_def getShard_a Add_def fresh_def NewTimeWheel_def constClock_def
        go_mod_def go_div_def second_def unix_def Let_def)
  ultimately show ?thesis by simp
qed

section \<open>Get after Set\<close>

lemma unix_mono: "a \<le> b \<Longrightarrow> unix a \<le> unix b"
  by (simp add: unix_def second_def zdiv_mono1)

lemma Set_stores_ok:
  assumes "reachable c" and "0 \<le> ttl"
  shows "\<exists>c'. Set c key val ttl now = Inr c'"
proof -
  have w: "wheel_ok (timeWheel c)" using assms(1) by (rule reachable_wheel_ok)
  show ?thesis using Add_ok [OF w assms(2), of key now] by (simp add: Set_def Let_def)
qed

lemma Set_entry:
  assumes "Set c key val ttl t0 = Inr c1"
  shows "shards c1 (getShard key) key
           = Some \<lparr>Value = val, ExpiresAt = (if ttl > 0 then unix (t0 + ttl) else 0)\<rparr>"
  using assms by (auto simp: Set_def Let_def split: sum.splits)

lemma Set_other_key:
  "Set c key' val ttl now = Inr c' \<Longrightarrow> key' \<noteq> key \<Longrightarrow>
   shards c' (getShard key) key = shards c (getShard key) key"
  by (auto simp: Set_def Let_def split: sum.splits)

lemma Delete_other_key:
  "Delete c key' = Inr c' \<Longrightarrow> key' \<noteq> key \<Longrightarrow>
   shards c' (getShard key) key = shards c (getShard key) key"
  by (auto simp: Delete_def Let_def)

lemma Get_other_key:
  "key' \<noteq> key \<Longrightarrow> shards (snd (Get c key' now)) (getShard key) key = shards c (getShard key) key"
  by (auto simp: Get_def Let_def split: option.splits)

text \<open>The entry of a key stored without expiry is dropped by the first \<open>Get\<close>: \<open>Get\<close>
  compares \<open>ExpiresAt = 0\<close> with the current second without the \<open>ExpiresAt > 0\<close> test that
  \<open>collectExpiredKeys\<close> and \<open>loadFromDisk\<close> make.\<close>

lemma Get_after_Set_without_ttl:
  assumes "Set c key val 0 t0 = Inr c1" and "0 < unix t"
  shows "fst (Get c1 key t) = Inl ErrKeyNotFound"
  using Set_entry [OF assms(1)] assms(2) by (simp add: Get_def Let_def)

text \<open>
  Claim C1, as the code has it, for a TTL \<open>d > 0\<close>.  If \<open>Set key val d\<close> returned at \<open>t0\<close>
  and the entry of \<open>key\<close> in its shard is still the one \<open>Set\<close> stored (no later set,
  delete or eviction of that key), then \<open>Get key\<close> at instant \<open>t\<close> returns \<open>val\<close> when the
  Unix second of \<open>t\<close> is not after the Unix second of \<open>t0 + d\<close>, and \<open>ErrKeyNotFound\<close>
  otherwise.  In particular it returns \<open>val\<close> at every \<open>t < t0 + d\<close>.
\<close>

theorem get_after_set_with_ttl:
  assumes "Set c key val d t0 = Inr c1" and "0 < d"
    and "shards c2 (getShard key) key = shards c1 (getShard key) key"
  shows "fst (Get c2 key t)
           = (if unix t \<le> unix (t0 + d) then Inr val else Inl ErrKeyNotFound)
       \<and> (t < t0 + d \<longrightarrow> fst (Get c2 key t) = Inr val)"
proof -
  have e: "shards c2 (getShard key) key = Some \<lparr>Value = val, ExpiresAt = unix (t0 + d)\<rparr>"
    using Set_entry [OF assms(1)] assms(2,3) by simp
  have g: "fst (Get c2 key t) = (if unix t \<le> unix (t0 + d) then Inr val else Inl ErrKeyNotFound)"
    using e by (simp add: Get_def Let_def)
  have "unix t \<le> unix (t0 + d)" if "t < t0 + d"
    using that by (simp add: unix_mono)
  with g show ?thesis by simp
qed

text \<open>\<open>set("a", "1", 5s)\<close> at second 100 on a new cache, then \<open>set("b", "2", 0)\<close>: \<open>get("a")\<close>
  returns \<open>"1"\<close> at second 103 and at second 105, and not found at second 106.\<close>

theorem get_after_set_with_ttl_witness:
  "Set fresh ''a'' ''1'' (5 * second) (100 * second)
      = Inr (projr (Set fresh ''a'' ''1'' (5 * second) (100 * second)))
   \<and> (0::int) < 5 * second
   \<and> shards (projr (Set (projr (Set fresh ''a'' ''1'' (5 * second) (100 * second))) ''b'' ''2'' 0 (101 * second)))
          (getShard ''a'') ''a''
      = shards (projr (Set fresh ''a'' ''1'' (5 * second) (100 * second))) (getShard ''a'') ''a''
   \<and> fst (Get (projr (Set (projr (Set fresh ''a'' ''1'' (5 * second) (100 * second))) ''b'' ''2'' 0 (101 * second)))
          ''a'' (103 * second)) = Inr ''1''
   \<and> fst (Get (projr (Set (projr (Set fresh ''a'' ''1'' (5 * second) (100 * second))) ''b'' ''2'' 0 (101 * second)))
          ''a'' (105 * second)) = Inr ''1''
   \<and> fst (Get (projr (Set (projr (Set fresh ''a'' ''1'' (5 * second) (100 * second))) ''b'' ''2'' 0 (101 * second)))
          ''a'' (106 * second)) = Inl ErrKeyNotFound"
proof -
  let ?c1 = "projr (Set fresh ''a'' ''1'' (5 * second) (100 * second))"
  let ?c2 = "projr (Set ?c1 ''b'' ''2'' 0 (101 * second))"
  have p: "(0::int) < 5 * second" by (simp add: second_def)
  have h: "(0::int) \<le> 5 * second" by (simp add: second_def)
  have z: "(0::int) \<le> 0" by simp
  obtain c1 where s1: "Set fresh ''a'' ''1'' (5 * second) (100 * second) = Inr c1"
    using Set_stores_ok [OF reachable_fresh h] by blast
  then have e1: "Set fresh ''a'' ''1'' (5 * second) (100 * second) = Inr ?c1" by simp
  have r1: "reachable ?c1" using reachable_fresh e1 by (rule r_set)
  obtain c2 where s2: "Set ?c1 ''b'' ''2'' 0 (101 * second) = Inr c2"
    using Set_stores_ok [OF r1 z] by blast
  then have e2: "Set ?c1 ''b'' ''2'' 0 (101 * second) = Inr ?c2" by simp
  have k: "shards ?c2 (getShard ''a'') ''a'' = shards ?c1 (getShard ''a'') ''a''"
    using e2 by (rule Set_other_key) simp
  have u: "unix (100 * second + 5 * second) = 105" by (simp add: unix_def second_def)
  show ?thesis
    using get_after_set_with_ttl [OF e1 p k, of "103 * second"]
      get_after_set_with_ttl [OF e1 p k, of "105 * second"]
      get_after_set_with_ttl [OF e1 p k, of "106 * second"] e1 p k u
    by (simp add: unix_seconds)
qed

text \<open>The claim as it is written fails in the second of expiry: \<open>set("a", "1", 1s)\<close> at
  second 100, \<open>get("a")\<close> at second 101 returns \<open>"1"\<close>, although \<open>d \<noteq> 0\<close> and \<open>t < t0 + d\<close>
  does not hold.\<close>

theorem get_in_expiry_second_returns_value:
  "100 * second \<le> 101 * second
   \<and> fst (Get (projr (Set fresh ''a'' ''1'' (1 * second) (100 * second))) ''a'' (101 * second))
       \<noteq> (if 1 * second = 0 \<or> 101 * second < 100 * second + 1 * second
          then Inr ''1'' else Inl ErrKeyNotFound)"
proof -
  have "fst (Get (projr (Set fresh ''a'' ''1'' (1 * second) (100 * second))) ''a'' (101 * second)) = Inr ''1''"
    by (simp add: Set_def Get_def getShard_a Add_def fresh_def NewTimeWheel_def NewCacheRepo_def Write_def
      go_mod_def go_div_def second_def unix_def Let_def)
  then show ?thesis by (simp add: second_def)
qed

section \<open>Wheel ticks and live entries\<close>

lemma fire_idle:
  "\<forall>k \<in> set keys. (slots (timeWheel c) ! i) k = None \<Longrightarrow> fire now i keys c = Inr c"
  by (induction keys) simp_all

lemma runTick_idle:
  assumes "wheel_ok (timeWheel c)"
    and "\<forall>k \<in> set keys. (slots (timeWheel c) ! nat ((index (timeWheel c) + 1) mod 60)) k = None"
  shows "runTick t keys c = Inr (c\<lparr>timeWheel := (timeWheel c)\<lparr>index := (index (timeWheel c) + 1) mod 60\<rparr>\<rparr>)"
proof -
  have m: "go_mod (index (timeWheel c) + 1) (int (length (slots (timeWheel c)))) = (index (timeWheel c) + 1) mod 60"
    using assms(1) by (simp add: wheel_ok_def go_mod_nonneg)
  have ne: "slots (timeWheel c) \<noteq> []" using assms(1) by (auto simp: wheel_ok_def)
  let ?c1 = "c\<lparr>timeWheel := (timeWheel c)\<lparr>index := (index (timeWheel c) + 1) mod 60\<rparr>\<rparr>"
  have "\<forall>k \<in> set keys. (slots (timeWheel ?c1) ! nat ((index (timeWheel c) + 1) mod 60)) k = None"
    using assms(2) by simp
  then have "fire (unix t) (nat ((index (timeWheel c) + 1) mod 60)) keys ?c1 = Inr ?c1"
    by (rule fire_idle)
  then show ?thesis using m ne by (simp add: runTick_def Let_def)
qed

lemma run_idle:
  assumes "wheel_ok (timeWheel c)"
    and "\<forall>j. 1 \<le> j \<and> j \<le> int n \<longrightarrow>
           (\<forall>k \<in> set keys. (slots (timeWheel c) ! nat ((index (timeWheel c) + j) mod 60)) k = None)"
  shows "run (ticksFrom t n keys) c
           = Inr (c\<lparr>timeWheel := (timeWheel c)\<lparr>index := (index (timeWheel c) + int n) mod 60\<rparr>\<rparr>)"
  using assms
proof (induction n arbitrary: c t)
  case 0
  then show ?case by (simp add: wheel_ok_def)
next
  case (Suc n)
  let ?c1 = "c\<lparr>timeWheel := (timeWheel c)\<lparr>index := (index (timeWheel c) + 1) mod 60\<rparr>\<rparr>"
  have "\<forall>k \<in> set keys. (slots (timeWheel c) ! nat ((index (timeWheel c) + 1) mod 60)) k = None"
    using Suc.prems(2) by simp
  with Suc.prems(1) have s: "runTick (t + second) keys c = Inr ?c1" by (rule runTick_idle)
  have w: "wheel_ok (timeWheel ?c1)" using Suc.prems(1) by (simp add: wheel_ok_def)
  have e: "\<forall>j. 1 \<le> j \<and> j \<le> int n \<longrightarrow>
           (\<forall>k \<in> set keys. (slots (timeWheel ?c1) ! nat ((index (timeWheel ?c1) + j) mod 60)) k = None)"
  proof (intro allI impI)
    fix j assume j: "1 \<le> j \<and> j \<le> int n"
    have "((index (timeWheel c) + 1) mod 60 + j) mod 60 = (index (timeWheel c) + (j + 1)) mod 60"
      by presburger
    moreover have "\<forall>k \<in> set keys. (slots (timeWheel c) ! nat ((index (timeWheel c) + (j + 1)) mod 60)) k = None"
      using Suc.prems(2) j by simp
    ultimately show "\<forall>k \<in> set keys. (slots (timeWheel ?c1) ! nat ((index (timeWheel ?c1) + j) mod 60)) k = None"
      by simp
  qed
  have i: "((index (timeWheel c) + 1) mod 60 + int n) mod 60 = (index (timeWheel c) + int (Suc n)) mod 60"
    by (simp add: mod_add_left_eq add.assoc)
  show ?case using Suc.IH [OF w e, of "t + second"] s i by simp
qed

lemma run_append:
  "run (xs @ ys) c = (case run xs c of Inl e \<Rightarrow> Inl e | Inr c' \<Rightarrow> run ys c')"
  by (induction xs arbitrary: c) (auto split: sum.splits)

lemma ticksFrom_Suc_end:
  "ticksFrom t (Suc n) keys = ticksFrom t n keys @ [(t + int (Suc n) * second, keys)]"
proof (induction n arbitrary: t)
  case 0
  show ?case by simp
next
  case (Suc n)
  have "ticksFrom t (Suc (Suc n)) keys = (t + second, keys) # ticksFrom (t + second) (Suc n) keys"
    by simp
  also have "\<dots> = (t + second, keys) #
      (ticksFrom (t + second) n keys @ [(t + second + int (Suc n) * second, keys)])"
    by (simp only: Suc.IH)
  also have "\<dots> = ticksFrom t (Suc n) keys @ [(t + int (Suc (Suc n)) * second, keys)]"
    by (simp add: algebra_simps)
  finally show ?case .
qed


text \<open>Whatever the shard holds for the key: a tick that finds the key in its slot with a
  wheel timestamp before the current second deletes the key from its shard and logs a
  \<open>DEL\<close>.  The entry's own \<open>ExpiresAt\<close> is not looked at.\<close>

lemma runTick_deletes_fired_key:
  assumes "wheel_ok (timeWheel c)"
    and "(slots (timeWheel c) ! nat ((index (timeWheel c) + 1) mod 60)) key = Some e"
    and "e < unix t"
  shows "\<exists>c'. runTick t [key] c = Inr c' \<and> shards c' (getShard key) key = None
           \<and> queue (repo c') = queue (repo c) @ [delRecord key]"
proof -
  have m: "go_mod (index (timeWheel c) + 1) (int (length (slots (timeWheel c)))) = (index (timeWheel c) + 1) mod 60"
    using assms(1) by (simp add: wheel_ok_def go_mod_nonneg)
  have ne: "slots (timeWheel c) \<noteq> []" using assms(1) by (auto simp: wheel_ok_def)
  show ?thesis using m ne assms(2,3)
    by (simp add: runTick_def Let_def Delete_def Write_def delRecord_def)
qed

text \<open>
  Claim C2 at a concrete run.  \<open>set("a", "1", 0)\<close> at second 100 on a new cache stores an
  entry with \<open>expires_at = 0\<close> (never expires) and puts \<open>"a"\<close> into the current wheel slot
  with timestamp 100.  Sixty ticks later the slot comes up again, \<open>160 > 100\<close>, and the
  tick calls \<open>Delete\<close>: the live entry is gone from its shard and a \<open>DEL\<close> record is logged.
\<close>

theorem wheel_tick_deletes_entry_without_expiry:
  "shards (projr (Set fresh ''a'' ''1'' 0 (100 * second))) (getShard ''a'') ''a''
     = Some \<lparr>Value = ''1'', ExpiresAt = 0\<rparr>
   \<and> (\<exists>c'. run (ticksFrom (100 * second) 60 [''a'']) (projr (Set fresh ''a'' ''1'' 0 (100 * second))) = Inr c'
          \<and> shards c' (getShard ''a'') ''a'' = None
          \<and> queue (repo c') = [setRecord ''a'' ''1'' 0, delRecord ''a''])"
proof -
  let ?c1 = "projr (Set fresh ''a'' ''1'' 0 (100 * second))"
  have c1: "?c1 = fresh\<lparr>shards := (shards fresh)(12 := [''a'' \<mapsto> \<lparr>Value = ''1'', ExpiresAt = 0\<rparr>]),
        timeWheel := (timeWheel fresh)\<lparr>slots := (slots (timeWheel fresh))[0 := [''a'' \<mapsto> 100]]\<rparr>,
        repo := \<lparr>file' = [], queue = [[IString ''SET'', IString ''a'', IString ''1'', IInt64 0]]\<rparr>\<rparr>"
    by (simp add: Set_fresh_a)
  have e: "shards ?c1 (getShard ''a'') ''a'' = Some \<lparr>Value = ''1'', ExpiresAt = 0\<rparr>"
    unfolding c1 by (simp add: getShard_a)
  have w: "wheel_ok (timeWheel ?c1)"
    unfolding c1 by (simp add: fresh_def NewTimeWheel_def wheel_ok_def)
  have i0: "index (timeWheel ?c1) = 0" unfolding c1 by (simp add: fresh_def NewTimeWheel_def)
  have sl: "slots (timeWheel ?c1) = (replicate 60 Map.empty)[0 := [''a'' \<mapsto> 100]]"
    unfolding c1 by (simp add: fresh_def NewTimeWheel_def)
  have idle: "\<forall>j. 1 \<le> j \<and> j \<le> int 59 \<longrightarrow>
           (\<forall>k \<in> set [''a'']. (slots (timeWheel ?c1) ! nat ((index (timeWheel ?c1) + j) mod 60)) k = None)"
  proof (intro allI impI)
    fix j :: int assume j: "1 \<le> j \<and> j \<le> int 59"
    then have "j mod 60 = j" by simp
    moreover have "nat j \<noteq> 0" "nat j < 60" using j by linarith+
    ultimately show "\<forall>k \<in> set [''a'']. (slots (timeWheel ?c1) ! nat ((index (timeWheel ?c1) + j) mod 60)) k = None"
      by (simp add: i0 sl)
  qed
  let ?c59 = "?c1\<lparr>timeWheel := (timeWheel ?c1)\<lparr>index := 59\<rparr>\<rparr>"
  have r59: "run (ticksFrom (100 * second) 59 [''a'']) ?c1 = Inr ?c59"
    using run_idle [OF w idle, of "100 * second"] by (simp add: i0)
  have w59: "wheel_ok (timeWheel ?c59)" using w by (simp add: wheel_ok_def)
  have s59: "(slots (timeWheel ?c59) ! nat ((index (timeWheel ?c59) + 1) mod 60)) ''a'' = Some 100"
    by (simp add: sl)
  have t: "(100::int) < unix (160 * second)"
    by (simp add: unix_seconds)
  obtain c' where f: "runTick (160 * second) [''a''] ?c59 = Inr c'"
    and n: "shards c' (getShard ''a'') ''a'' = None"
    and q: "queue (repo c') = queue (repo ?c59) @ [delRecord ''a'']"
    using runTick_deletes_fired_key [OF w59 s59 t] by blast
  have sp: "ticksFrom (100 * second) 60 [''a'']
      = ticksFrom (100 * second) 59 [''a''] @ [(160 * second, [''a''])]"
    using ticksFrom_Suc_end [of "100 * second" 59 "[''a'']"] by simp
  have "run (ticksFrom (100 * second) 60 [''a'']) ?c1 = Inr c'"
    unfolding sp by (simp add: run_append r59 f)
  moreover have "queue (repo c') = [setRecord ''a'' ''1'' 0, delRecord ''a'']"
    using q unfolding c1 by (simp add: setRecord_def)
  ultimately show ?thesis using e n by blast
qed

section \<open>Negative TTL\<close>

text \<open>Outside the TTLs the operations are specified for: with a TTL of minus one second
  on a new cache, \<open>Add\<close> computes slot \<open>(0 + (-1)) % 60 = -1\<close> and the slice access panics
  (after the shard has been written).\<close>

lemma Set_negative_ttl_panics:
  "Set fresh ''a'' ''1'' (- second) (100 * second) = Inl Panic"
  by (simp add: Set_def Add_def fresh_def NewTimeWheel_def go_mod_def go_div_def second_def Let_def)

end
